theory Spec2Isabelle
  imports Main
begin

section \<open>Receipt fetcher: values, descriptors, paths and URLs\<close>

text \<open>
  The program under study is \<^verbatim>\<open>src/fetch_receipts.py\<close>. It enumerates receipt
  descriptors from tabular datasets, downloads each receipt that is not yet on disk with
  a pool of workers, and aggregates the outcomes into a progress dictionary.

  Cells of a data frame row are Python values. The three kinds that occur in the columns
  the program reads are modelled: a string, an (unbounded) integer, and the missing value
  \<^verbatim>\<open>NaN\<close> that the reader produces for an absent cell.
\<close>

datatype pyval = PyStr string | PyInt int | PyNaN

text \<open>
  The decimal digits of a non-negative integer, as \<^verbatim>\<open>str\<close> prints them, and the sign
  in front of a negative one.
\<close>

definition digit :: "int \<Rightarrow> char" where
  "digit d = ''0123456789'' ! nat d"

function str_digits :: "int \<Rightarrow> string" where
  "str_digits i = (if i < 10 then [digit i] else str_digits (i div 10) @ [digit (i mod 10)])"
  by pat_completeness auto
termination
  by (relation "measure nat") auto

declare str_digits.simps [simp del]

definition str_int :: "int \<Rightarrow> string" where
  "str_int i = (if i < 0 then ''-'' @ str_digits (- i) else str_digits i)"

text \<open>
  \<^verbatim>\<open>str(v)\<close>, which is also what \<^verbatim>\<open>'{}'.format(v)\<close> inserts for these
  three kinds of value.
\<close>

fun py_str :: "pyval \<Rightarrow> string" where
  "py_str (PyStr s) = s"
| "py_str (PyInt i) = str_int i"
| "py_str PyNaN = ''nan''"

text \<open>\<^verbatim>\<open>pd.isnull\<close> on a scalar: true for the missing value only.\<close>

fun isnull :: "pyval \<Rightarrow> bool" where
  "isnull PyNaN = True"
| "isnull _ = False"

subsection \<open>Class \<^verbatim>\<open>Receipt\<close>\<close>

text \<open>A data frame row, as \<^verbatim>\<open>itertuples\<close> hands it over (the columns the program uses).\<close>

record row =
  row_applicant_id :: pyval
  row_year :: pyval
  row_document_id :: pyval

record receipt =
  applicant_id :: pyval
  year :: pyval
  document_id :: pyval
  target :: string

definition Receipt_init :: "row \<Rightarrow> string \<Rightarrow> receipt" where
  "Receipt_init r tgt =
     \<lparr>applicant_id = row_applicant_id r, year = row_year r,
      document_id = row_document_id r, target = tgt\<rparr>"

subsection \<open>\<^verbatim>\<open>posixpath\<close>\<close>

text \<open>
  \<^verbatim>\<open>os.path.join(a, *p)\<close>: a component that starts with a slash discards what
  came before it; a separator is inserted unless the path so far is empty or already ends
  with one.
\<close>

definition startswith_sep :: "string \<Rightarrow> bool" where
  "startswith_sep s = (case s of [] \<Rightarrow> False | c # _ \<Rightarrow> c = CHR ''/'')"

definition endswith_sep :: "string \<Rightarrow> bool" where
  "endswith_sep s = (s \<noteq> [] \<and> last s = CHR ''/'')"

definition join_step :: "string \<Rightarrow> string \<Rightarrow> string" where
  "join_step p b =
     (if startswith_sep b then b
      else if p = [] \<or> endswith_sep p then p @ b
      else p @ ''/'' @ b)"

definition join :: "string \<Rightarrow> string list \<Rightarrow> string" where
  "join a ps = foldl join_step a ps"

text \<open>\<^verbatim>\<open>str.split('/')\<close>: the pieces between separators, empty pieces included.\<close>

fun split_sep :: "string \<Rightarrow> string \<Rightarrow> string list" where
  "split_sep acc [] = [rev acc]"
| "split_sep acc (c # cs) =
     (if c = CHR ''/'' then rev acc # split_sep [] cs else split_sep (c # acc) cs)"

text \<open>\<^verbatim>\<open>'/'.join(comps)\<close>.\<close>

fun sep_join :: "string list \<Rightarrow> string" where
  "sep_join [] = []"
| "sep_join [c] = c"
| "sep_join (c # cs) = c @ ''/'' @ sep_join cs"

text \<open>
  The loop of \<^verbatim>\<open>posixpath.normpath\<close> over the components; \<open>new\<close> is the list
  \<^verbatim>\<open>new_comps\<close> in reverse (its head is \<^verbatim>\<open>new_comps[-1]\<close>).
\<close>

fun norm_comps :: "bool \<Rightarrow> string list \<Rightarrow> string list \<Rightarrow> string list" where
  "norm_comps initial new [] = rev new"
| "norm_comps initial new (c # comps) =
     (if c = [] \<or> c = ''.'' then norm_comps initial new comps
      else if c \<noteq> ''..'' \<or> (\<not> initial \<and> new = []) \<or> (new \<noteq> [] \<and> hd new = ''..'')
        then norm_comps initial (c # new) comps
      else if new \<noteq> [] then norm_comps initial (tl new) comps
      else norm_comps initial new comps)"

definition initial_slashes :: "string \<Rightarrow> nat" where
  "initial_slashes p =
     (if \<not> startswith_sep p then 0
      else if take 2 p = ''//'' \<and> take 3 p \<noteq> ''///'' then 2
      else 1)"

definition normpath :: "string \<Rightarrow> string" where
  "normpath p =
     (if p = [] then ''.''
      else let n = initial_slashes p;
               q = replicate n CHR ''/'' @ sep_join (norm_comps (n \<noteq> 0) [] (split_sep [] p))
           in if q = [] then ''.'' else q)"

text \<open>
  \<^verbatim>\<open>os.path.abspath\<close>; the current working directory \<^verbatim>\<open>os.getcwd()\<close> is a
  parameter.
\<close>

definition abspath :: "string \<Rightarrow> string \<Rightarrow> string" where
  "abspath cwd p = normpath (if startswith_sep p then p else join cwd [p])"

subsection \<open>\<^verbatim>\<open>Receipt.path\<close> and \<^verbatim>\<open>Receipt.url\<close>\<close>

definition path :: "string \<Rightarrow> receipt \<Rightarrow> string" where
  "path cwd r =
     join (abspath cwd (target r))
       [py_str (applicant_id r), py_str (year r), py_str (document_id r) @ ''.pdf'']"

definition base :: string where
  "base = ''http://www.camara.gov.br/cota-parlamentar/documentos/publ/''"

text \<open>
  The recipe \<^verbatim>\<open>'{base}{applicant_id}/{year}/{document_id}.pdf'\<close>, filled in by
  \<^verbatim>\<open>str.format\<close>.
\<close>

definition url :: "receipt \<Rightarrow> string" where
  "url r =
     base @ py_str (applicant_id r) @ ''/'' @ py_str (year r) @ ''/''
       @ py_str (document_id r) @ ''.pdf''"

section \<open>Class \<^verbatim>\<open>Receipts\<close>: the stream of descriptors\<close>

text \<open>
  The names of \<^verbatim>\<open>DATA_DIR\<close> that \<^verbatim>\<open>REGEX\<close> matches:
  \<^verbatim>\<open>^[\d-]{11}(current-year|last-year|previous-years).xz$\<close>, tried with
  \<^verbatim>\<open>re.match\<close>. The dot stands for any character but a newline, and the dollar also
  matches before one final newline. Characters are bytes here, so \<^verbatim>\<open>\d\<close> is an ASCII
  digit.
\<close>

definition newline :: char where
  "newline = CHR 0x0A"

definition digit_or_dash :: "char \<Rightarrow> bool" where
  "digit_or_dash c = (c \<in> set ''0123456789-'')"

definition match_body :: "string \<Rightarrow> bool" where
  "match_body s =
     (11 \<le> length s \<and> list_all digit_or_dash (take 11 s) \<and>
      list_ex
        (\<lambda>w. take (length w) (drop 11 s) = w \<and>
           (case drop (11 + length w) s of
              [c, x, z] \<Rightarrow> c \<noteq> newline \<and> x = CHR ''x'' \<and> z = CHR ''z''
            | _ \<Rightarrow> False))
        [''current-year'', ''last-year'', ''previous-years''])"

definition regex_match :: "string \<Rightarrow> bool" where
  "regex_match name =
     (match_body name \<or> (name \<noteq> [] \<and> last name = newline \<and> match_body (butlast name)))"

text \<open>
  A line of a dataset. The program reads the column \<^verbatim>\<open>document_id\<close> with
  \<^verbatim>\<open>dtype\<close> \<^verbatim>\<open>np.str\<close>, so its cell is kept here as the text found in the file;
  the columns \<^verbatim>\<open>applicant_id\<close> and \<^verbatim>\<open>year\<close> have no declared type and
  carry the value the reader inferred.
\<close>

record csv_row =
  csv_applicant_id :: pyval
  csv_year :: pyval
  csv_document_id :: string

text \<open>
  The texts that \<^verbatim>\<open>pd.read_csv\<close> turns into the missing value when it is called, as
  here, without \<^verbatim>\<open>na_values\<close>, \<^verbatim>\<open>keep_default_na\<close> or \<^verbatim>\<open>na_filter\<close>:
  its default list, which holds the empty text.
\<close>

definition na_values :: "string list" where
  "na_values =
     [[], ''#N/A'', ''#N/A N/A'', ''#NA'', ''-1.#IND'', ''-1.#QNAN'', ''-NaN'', ''-nan'',
      ''1.#IND'', ''1.#QNAN'', ''N/A'', ''NA'', ''NULL'', ''NaN'', ''nan'']"

definition read_cell :: "string \<Rightarrow> pyval" where
  "read_cell s = (if s \<in> set na_values then PyNaN else PyStr s)"

definition read_row :: "csv_row \<Rightarrow> row" where
  "read_row c =
     \<lparr>row_applicant_id = csv_applicant_id c, row_year = csv_year c,
      row_document_id = read_cell (csv_document_id c)\<rparr>"

definition read_csv :: "csv_row list \<Rightarrow> row list" where
  "read_csv lines = map read_row lines"

text \<open>
  \<^verbatim>\<open>Receipts.datasets\<close>: the directory listing (file name and content, in the order
  \<^verbatim>\<open>os.listdir\<close> gives), filtered by the pattern.
\<close>

definition datasets :: "(string \<times> csv_row list) list \<Rightarrow> (string \<times> csv_row list) list" where
  "datasets listing = filter (\<lambda>(file_name, content). regex_match file_name) listing"

text \<open>
  \<^verbatim>\<open>Receipts.all\<close>: for each dataset, read it and yield a \<^verbatim>\<open>Receipt\<close> for every
  row whose \<^verbatim>\<open>document_id\<close> is not null. The generator is modelled by the list of
  what it yields; a dataset that the reader cannot parse is outside the model.
\<close>

fun all_from :: "string \<Rightarrow> (string \<times> csv_row list) list \<Rightarrow> receipt list" where
  "all_from tgt [] = []"
| "all_from tgt ((file_name, content) # rest) =
     (let data = read_csv content
      in [Receipt_init r tgt. r \<leftarrow> data, \<not> isnull (row_document_id r)]) @ all_from tgt rest"

definition Receipts_all :: "string \<Rightarrow> (string \<times> csv_row list) list \<Rightarrow> receipt list" where
  "Receipts_all tgt listing = all_from tgt (datasets listing)"

text \<open>
  The words of the specification, for comparison: a row has a document identifier when
  the cell is neither null (one of the reader's markers of a missing value) nor empty.
\<close>

definition has_document_id :: "csv_row \<Rightarrow> bool" where
  "has_document_id c = (csv_document_id c \<notin> set na_values \<and> csv_document_id c \<noteq> [])"

section \<open>The world: file system and network\<close>

datatype exn =
    RuntimeError string
  | ValueError string
  | TypeError string
  | HTTPError string
  | URLError string
  | FileExistsError string
  | OSError string

text \<open>
  \<open>HTTPError\<close> carries \<^verbatim>\<open>repr(e)\<close>; \<open>URLError\<close> stands for the transport
  failures of \<^verbatim>\<open>urllib\<close> that are not \<^verbatim>\<open>HTTPError\<close>; \<open>OSError\<close> stands
  for the operating-system errors other than \<^verbatim>\<open>FileExistsError\<close>.

  The file system maps the canonical absolute path of a node (\<^verbatim>\<open>/\<close> for the root,
  \<^verbatim>\<open>/a/b\<close> below it) to the kind of node found there. Permissions and symbolic
  links are not modelled. \<open>requests\<close> lists the URLs handed to \<^verbatim>\<open>urlretrieve\<close>,
  oldest first. \<open>dispatched\<close> lists the descriptors handed to the pool, oldest first:
  bookkeeping of the model, the program keeps no such list.
\<close>

datatype kind = File | Dir

record world =
  cwd :: string
  fs :: "string \<rightharpoonup> kind"
  requests :: "string list"
  dispatched :: "receipt list"

text \<open>
  \<^verbatim>\<open>posixpath.split\<close>: cut after the last slash; trailing slashes are stripped from the
  head unless it consists of slashes only.
\<close>

definition psplit :: "string \<Rightarrow> string \<times> string" where
  "psplit p =
     (let tail = rev (takeWhile (\<lambda>c. c \<noteq> CHR ''/'') (rev p));
          head = take (length p - length tail) p
      in if head \<noteq> [] \<and> head \<noteq> replicate (length head) CHR ''/''
         then (rev (dropWhile (\<lambda>c. c = CHR ''/'') (rev head)), tail)
         else (head, tail))"

definition dirname :: "string \<Rightarrow> string" where
  "dirname p = fst (psplit p)"

text \<open>
  How the operating system resolves a path name, as \<^verbatim>\<open>stat\<close> does: component by
  component, from the root for an absolute name and from the working directory for a
  relative one. Every component, the empty one left by a doubled or trailing slash and
  \<^verbatim>\<open>.\<close> included, is looked up in a directory; \<^verbatim>\<open>..\<close> leads to the parent and a
  name to the entry of that name, which must exist. The empty path name resolves to
  nothing. The result is the canonical path of the node that was reached.
\<close>

definition child :: "string \<Rightarrow> string \<Rightarrow> string" where
  "child d c = (if d = ''/'' then d @ c else d @ ''/'' @ c)"

definition parent_dir :: "string \<Rightarrow> string" where
  "parent_dir d =
     (let h = rev (dropWhile (\<lambda>c. c \<noteq> CHR ''/'') (rev d))
      in if length h \<le> 1 then ''/'' else butlast h)"

fun walk :: "(string \<rightharpoonup> kind) \<Rightarrow> string \<Rightarrow> string list \<Rightarrow> string option" where
  "walk f cur [] = (if f cur = None then None else Some cur)"
| "walk f cur (c # cs) =
     (if f cur \<noteq> Some Dir then None
      else if c = [] \<or> c = ''.'' then walk f cur cs
      else if c = ''..'' then walk f (parent_dir cur) cs
      else if f (child cur c) = None then None
      else walk f (child cur c) cs)"

definition resolve :: "world \<Rightarrow> string \<Rightarrow> string option" where
  "resolve w p =
     (if p = [] then None
      else walk (fs w) (if startswith_sep p then ''/'' else cwd w) (split_sep [] p))"

text \<open>\<^verbatim>\<open>os.path.exists\<close>, \<^verbatim>\<open>os.path.isdir\<close> and \<^verbatim>\<open>os.path.isfile\<close>.\<close>

definition path_exists :: "world \<Rightarrow> string \<Rightarrow> bool" where
  "path_exists w p = (resolve w p \<noteq> None)"

definition path_isdir :: "world \<Rightarrow> string \<Rightarrow> bool" where
  "path_isdir w p = (case resolve w p of None \<Rightarrow> False | Some q \<Rightarrow> fs w q = Some Dir)"

definition path_isfile :: "world \<Rightarrow> string \<Rightarrow> bool" where
  "path_isfile w p = (case resolve w p of None \<Rightarrow> False | Some q \<Rightarrow> fs w q = Some File)"

text \<open>
  Where a new node of the given name would be put: its directory must resolve to a
  directory and its last component must be a proper name. Trailing slashes are dropped
  first.
\<close>

definition rstrip_sep :: "string \<Rightarrow> string" where
  "rstrip_sep p = rev (dropWhile (\<lambda>c. c = CHR ''/'') (rev p))"

definition new_node :: "world \<Rightarrow> string \<Rightarrow> string option" where
  "new_node w name =
     (case psplit (rstrip_sep name) of
        (head, tail) \<Rightarrow>
          if tail = [] \<or> tail = ''.'' \<or> tail = ''..'' then None
          else (case resolve w (if head = [] then ''.'' else head) of
                  None \<Rightarrow> None
                | Some d \<Rightarrow> if fs w d = Some Dir then Some (child d tail) else None))"

text \<open>
  \<^verbatim>\<open>os.mkdir\<close>: fails with \<^verbatim>\<open>FileExistsError\<close> when the name exists, and with
  another error when the new directory cannot be put anywhere.
\<close>

definition mkdir :: "world \<Rightarrow> string \<Rightarrow> exn option \<times> world" where
  "mkdir w name =
     (if path_exists w name then (Some (FileExistsError name), w)
      else (case new_node w name of
              None \<Rightarrow> (Some (OSError name), w)
            | Some q \<Rightarrow>
                if fs w q \<noteq> None then (Some (FileExistsError name), w)
                else (None, w\<lparr>fs := (fs w)(q \<mapsto> Dir)\<rparr>)))"

text \<open>
  \<^verbatim>\<open>os.makedirs(name, exist_ok=True)\<close>, as the standard library writes it: split the
  name (twice when it ends with a slash), create the head first when it is missing,
  ignoring \<^verbatim>\<open>FileExistsError\<close> from that call, then \<^verbatim>\<open>mkdir\<close> the name and
  re-raise its error only when the name is not a directory.
\<close>

definition makedirs_split :: "string \<Rightarrow> string \<times> string" where
  "makedirs_split name =
     (case psplit name of (head, tail) \<Rightarrow> if tail = [] then psplit head else (head, tail))"

definition mkdir_exist_ok :: "world \<Rightarrow> string \<Rightarrow> exn option \<times> world" where
  "mkdir_exist_ok w name =
     (case mkdir w name of
        (None, w') \<Rightarrow> (None, w')
      | (Some e, w') \<Rightarrow> if \<not> path_isdir w' name then (Some e, w') else (None, w'))"

lemma psplit_length: "psplit p = (h, t) \<Longrightarrow> length h + length t \<le> length p"
proof -
  assume a: "psplit p = (h, t)"
  let ?t = "rev (takeWhile (\<lambda>c. c \<noteq> CHR ''/'') (rev p))"
  let ?h = "take (length p - length ?t) p"
  have t: "t = ?t"
    using a by (simp add: psplit_def Let_def split: if_splits)
  have "length (rev (dropWhile (\<lambda>c. c = CHR ''/'') (rev ?h))) \<le> length ?h"
    using length_dropWhile_le [of "\<lambda>c. c = CHR ''/''" "rev ?h"] by (simp del: rev_take)
  then have h: "length h \<le> length ?h"
    using a by (auto simp add: psplit_def Let_def split: if_splits)
  have "length ?t \<le> length p"
    using length_takeWhile_le [of _ "rev p"] by simp
  then show ?thesis
    using h t by simp
qed

lemma makedirs_split_shorter:
  assumes "snd (makedirs_split name) \<noteq> []"
  shows "length (fst (makedirs_split name)) < length name"
proof -
  obtain h0 t0 where s0: "psplit name = (h0, t0)"
    by (cases "psplit name")
  obtain h1 t1 where s1: "psplit h0 = (h1, t1)"
    by (cases "psplit h0")
  note l0 = psplit_length [OF s0] and l1 = psplit_length [OF s1]
  show ?thesis
  proof (cases "t0 = []")
    case True
    with s0 s1 assms have "t1 \<noteq> []" and "fst (makedirs_split name) = h1"
      by (simp_all add: makedirs_split_def)
    with l0 l1 show ?thesis
      by (cases t1) simp_all
  next
    case False
    with s0 have "fst (makedirs_split name) = h0"
      by (simp add: makedirs_split_def)
    with False l0 show ?thesis
      by (cases t0) simp_all
  qed
qed

function makedirs :: "world \<Rightarrow> string \<Rightarrow> exn option \<times> world" where
  "makedirs w name =
     (if fst (makedirs_split name) \<noteq> [] \<and> snd (makedirs_split name) \<noteq> []
         \<and> \<not> path_exists w (fst (makedirs_split name))
      then (case makedirs w (fst (makedirs_split name)) of
              (Some (FileExistsError m), w') \<Rightarrow>
                if snd (makedirs_split name) = ''.'' then (None, w') else mkdir_exist_ok w' name
            | (Some e, w') \<Rightarrow> (Some e, w')
            | (None, w') \<Rightarrow>
                if snd (makedirs_split name) = ''.'' then (None, w') else mkdir_exist_ok w' name)
      else mkdir_exist_ok w name)"
  by pat_completeness auto
termination
  by (relation "measure (\<lambda>(w, name). length name)") (simp_all add: makedirs_split_shorter)

declare makedirs.simps [simp del]

subsection \<open>\<^verbatim>\<open>urlretrieve\<close>\<close>

text \<open>
  \<^verbatim>\<open>open(filename, 'wb')\<close>: creates the file, or truncates the one that is there.
\<close>

definition open_wb :: "world \<Rightarrow> string \<Rightarrow> exn option \<times> world" where
  "open_wb w filename =
     (if endswith_sep filename then (Some (OSError filename), w)
      else (case new_node w filename of
              None \<Rightarrow> (Some (OSError filename), w)
            | Some q \<Rightarrow>
                if fs w q = Some Dir then (Some (OSError filename), w)
                else (None, w\<lparr>fs := (fs w)(q \<mapsto> File)\<rparr>)))"

text \<open>
  The network answers a URL with the headers of a successful response or raises. On
  success \<^verbatim>\<open>urlretrieve\<close> opens the file, writes it and returns its name and the
  headers; an error raised while opening the URL leaves the file system as it was.
\<close>

type_synonym headers = "(string \<times> string) list"

datatype response = Response headers | Raises exn

definition urlretrieve ::
  "(string \<Rightarrow> response) \<Rightarrow> world \<Rightarrow> string \<Rightarrow> string \<Rightarrow> (exn + string \<times> headers) \<times> world" where
  "urlretrieve net w u filename =
     (let w' = w\<lparr>requests := requests w @ [u]\<rparr>
      in case net u of
           Raises e \<Rightarrow> (Inl e, w')
         | Response header \<Rightarrow>
             (case open_wb w' filename of
                (Some e, w'') \<Rightarrow> (Inl e, w'')
              | (None, w'') \<Rightarrow> (Inr (filename, header), w'')))"

section \<open>\<^verbatim>\<open>download_receipt\<close>\<close>

text \<open>
  The three tuples the worker returns: \<^verbatim>\<open>('ok', receipt, header)\<close>,
  \<^verbatim>\<open>('skipped', receipt, receipt.url)\<close> and \<^verbatim>\<open>('error', receipt, repr(e))\<close>.
\<close>

datatype result = Ok receipt headers | Skipped receipt string | Error receipt string

text \<open>
  Only \<^verbatim>\<open>HTTPError\<close> is caught; an error of \<^verbatim>\<open>os.makedirs\<close> and any other
  exception of \<^verbatim>\<open>urlretrieve\<close> leave the worker as exceptions.
\<close>

definition download_receipt ::
  "(string \<Rightarrow> response) \<Rightarrow> world \<Rightarrow> receipt \<Rightarrow> (exn + result) \<times> world" where
  "download_receipt net w r =
     (let p = path (cwd w) r
      in case makedirs w (dirname p) of
           (Some e, w1) \<Rightarrow> (Inl e, w1)
         | (None, w1) \<Rightarrow>
             if \<not> path_exists w1 p then
               (case urlretrieve net w1 (url r) p of
                  (Inr (file_name, header), w2) \<Rightarrow> (Inr (Ok r header), w2)
                | (Inl (HTTPError e), w2) \<Rightarrow> (Inr (Error r e), w2)
                | (Inl e, w2) \<Rightarrow> (Inl e, w2))
             else (Inr (Skipped r (url r)), w1))"

section \<open>\<^verbatim>\<open>run\<close>: the aggregation loop\<close>

subsection \<open>Reading the content length\<close>

text \<open>
  \<^verbatim>\<open>header['Content-Length']\<close> on the message object that \<^verbatim>\<open>urlretrieve\<close>
  returns: the value of the first field with that name, compared without regard to case,
  and \<^verbatim>\<open>None\<close> when there is none.
\<close>

definition lower_char :: "char \<Rightarrow> char" where
  "lower_char c =
     (case map_of (zip ''ABCDEFGHIJKLMNOPQRSTUVWXYZ'' ''abcdefghijklmnopqrstuvwxyz'') c of
        Some d \<Rightarrow> d
      | None \<Rightarrow> c)"

fun getitem :: "headers \<Rightarrow> string \<Rightarrow> string option" where
  "getitem [] name = None"
| "getitem ((k, v) # rest) name =
     (if map lower_char k = map lower_char name then Some v else getitem rest name)"

text \<open>
  \<^verbatim>\<open>int(x)\<close> for the two kinds of argument that can arrive: \<^verbatim>\<open>None\<close> raises
  \<^verbatim>\<open>TypeError\<close>; a string is stripped of surrounding white space and must then be an
  optional sign followed by decimal digits, else \<^verbatim>\<open>ValueError\<close>. Characters are
  bytes here; the digit separators of later language versions and the digits and white
  space beyond Latin-1 are not modelled. The text carried by the \<^verbatim>\<open>TypeError\<close>
  abridges the message of the interpreter, whose wording varies with its version.
\<close>

definition is_space :: "char \<Rightarrow> bool" where
  "is_space c =
     (c \<in> set [CHR 0x09, CHR 0x0A, CHR 0x0B, CHR 0x0C, CHR 0x0D, CHR 0x20, CHR 0x85, CHR 0xA0])"

definition strip :: "string \<Rightarrow> string" where
  "strip s = rev (dropWhile is_space (rev (dropWhile is_space s)))"

definition is_digit :: "char \<Rightarrow> bool" where
  "is_digit c = (c \<in> set ''0123456789'')"

definition digit_val :: "char \<Rightarrow> int" where
  "digit_val c = int (length (takeWhile (\<lambda>d. d \<noteq> c) ''0123456789''))"

definition dec_val :: "string \<Rightarrow> int" where
  "dec_val ds = foldl (\<lambda>acc c. 10 * acc + digit_val c) 0 ds"

definition parse_int :: "string \<Rightarrow> int option" where
  "parse_int s =
     (let t = strip s;
          neg = (t \<noteq> [] \<and> hd t = CHR ''-'');
          ds = (if t \<noteq> [] \<and> (hd t = CHR ''-'' \<or> hd t = CHR ''+'') then tl t else t)
      in if ds \<noteq> [] \<and> list_all is_digit ds
         then Some (if neg then - dec_val ds else dec_val ds)
         else None)"

definition py_int :: "string option \<Rightarrow> exn + int" where
  "py_int x =
     (case x of
        None \<Rightarrow> Inl (TypeError ''int() argument must be a string or a number, not NoneType'')
      | Some s \<Rightarrow>
          (case parse_int s of
             None \<Rightarrow> Inl (ValueError s)
           | Some n \<Rightarrow> Inr n))"

subsection \<open>The progress dictionary and the body of the loop\<close>

record progress =
  count :: int
  size_bytes :: int
  errors :: "string list"
  skipped :: "string list"

text \<open>
  The body of the \<^verbatim>\<open>for\<close> loop for one result. The status line it prints is
  output only and is left out.
\<close>

fun consume :: "progress \<Rightarrow> result \<Rightarrow> exn + progress" where
  "consume p (Ok r header) =
     (let p1 = p\<lparr>count := count p + 1\<rparr>
      in case py_int (getitem header ''Content-Length'') of
           Inl e \<Rightarrow> Inl e
         | Inr n \<Rightarrow> Inr (p1\<lparr>size_bytes := size_bytes p1 + n\<rparr>))"
| "consume p (Skipped r u) = Inr (p\<lparr>skipped := skipped p @ [url r]\<rparr>)"
| "consume p (Error r e) = Inr (p\<lparr>errors := errors p @ [url r]\<rparr>)"

text \<open>
  \<^verbatim>\<open>for result in pool.imap(download_receipt, cur_receipts)\<close>. \<^verbatim>\<open>imap\<close> hands the
  results over in the order of the descriptors, and re-raises in the parent the exception
  of a worker when its turn comes. The four workers are modelled by the schedule in which
  each task runs to its end before the next one starts.
\<close>

fun imap_loop ::
  "(string \<Rightarrow> response) \<Rightarrow> world \<Rightarrow> receipt list \<Rightarrow> progress \<Rightarrow> (exn + progress) \<times> world" where
  "imap_loop net w [] p = (Inr p, w)"
| "imap_loop net w (r # rs) p =
     (case download_receipt net (w\<lparr>dispatched := dispatched w @ [r]\<rparr>) r of
        (Inl e, w') \<Rightarrow> (Inl e, w')
      | (Inr res, w') \<Rightarrow>
          (case consume p res of
             Inl e \<Rightarrow> (Inl e, w')
           | Inr p' \<Rightarrow> imap_loop net w' rs p'))"

text \<open>
  \<^verbatim>\<open>islice(receipts, n)\<close> on the generator: the next \<open>n\<close> descriptors, and the
  generator advanced past them. A negative or oversized \<open>n\<close> raises.
\<close>

definition maxsize :: int where
  "maxsize = 2 ^ 63 - 1"

definition islice :: "receipt list \<Rightarrow> int \<Rightarrow> exn + receipt list \<times> receipt list" where
  "islice it n =
     (if n < 0 \<or> maxsize < n
      then Inl (ValueError ''Stop argument for islice() must be None or an integer'')
      else Inr (take (nat n) it, drop (nat n) it))"

text \<open>
  The head of the \<^verbatim>\<open>while\<close> body: with a limit (\<^verbatim>\<open>None\<close> and \<open>0\<close> are
  false) the batch is a slice of the generator, without one it is the generator itself,
  which the batch then leaves exhausted.
\<close>

definition cur_batch :: "int option \<Rightarrow> receipt list \<Rightarrow> progress \<Rightarrow> exn + receipt list \<times> receipt list" where
  "cur_batch limit receipts p =
     (case limit of
        None \<Rightarrow> Inr (receipts, [])
      | Some l \<Rightarrow> if l = 0 then Inr (receipts, []) else islice receipts (l - count p))"

text \<open>The exit condition \<^verbatim>\<open>not limit or progress['count'] >= limit\<close>.\<close>

definition exit_condition :: "int option \<Rightarrow> progress \<Rightarrow> bool" where
  "exit_condition limit p = (case limit of None \<Rightarrow> True | Some l \<Rightarrow> l = 0 \<or> l \<le> count p)"

text \<open>
  The \<^verbatim>\<open>while True\<close> loop. It need not end, so the result is an option: \<open>None\<close>
  is a run that never returns.
\<close>

partial_function (option) run_loop ::
  "(string \<Rightarrow> response) \<Rightarrow> int option \<Rightarrow> world \<Rightarrow> receipt list \<Rightarrow> progress
     \<Rightarrow> ((exn + progress) \<times> world) option" where
  [code]: "run_loop net limit w receipts p =
     (case cur_batch limit receipts p of
        Inl e \<Rightarrow> Some (Inl e, w)
      | Inr (cur_receipts, rest) \<Rightarrow>
          (case imap_loop net w cur_receipts p of
             (Inl e, w') \<Rightarrow> Some (Inl e, w')
           | (Inr p', w') \<Rightarrow>
               if exit_condition limit p' then Some (Inr p', w')
               else run_loop net limit w' rest p'))"

definition progress0 :: progress where
  "progress0 = \<lparr>count = 0, size_bytes = 0, errors = [], skipped = []\<rparr>"

text \<open>
  \<^verbatim>\<open>run(target, limit)\<close>; \<open>listing\<close> is the content of \<^verbatim>\<open>DATA_DIR\<close>.
\<close>

definition run ::
  "(string \<Rightarrow> response) \<Rightarrow> world \<Rightarrow> (string \<times> csv_row list) list \<Rightarrow> string \<Rightarrow> int option
     \<Rightarrow> ((exn + progress) \<times> world) option" where
  "run net w listing tgt limit =
     (if \<not> path_exists w tgt
        then Some (Inl (RuntimeError (''Directory '' @ tgt @ '' does not exist'')), w)
      else if \<not> path_isdir w tgt
        then Some (Inl (RuntimeError (tgt @ '' is a file, not a directory'')), w)
      else run_loop net limit w (Receipts_all tgt listing) progress0)"

section \<open>Auxiliary notions for the statements\<close>

text \<open>
  A path component that \<^verbatim>\<open>os.path.join\<close> appends after one separator: not empty, with
  no slash at either end.
\<close>

definition plain_component :: "string \<Rightarrow> bool" where
  "plain_component s = (s \<noteq> [] \<and> hd s \<noteq> CHR ''/'' \<and> last s \<noteq> CHR ''/'')"

text \<open>
  The left-hand side of the accounting invariant of the specification: the successes plus
  the lengths of the two lists of URLs.
\<close>

definition outcomes_counted :: "progress \<Rightarrow> int" where
  "outcomes_counted p = count p + int (length (skipped p)) + int (length (errors p))"

subsection \<open>Example inputs\<close>

text \<open>
  A small world: the working directory \<^verbatim>\<open>/srv\<close> holds the regular file
  \<^verbatim>\<open>notes.txt\<close> and the directory \<^verbatim>\<open>out\<close>, in which one receipt has been saved
  already.
\<close>

definition example_fs :: "string \<rightharpoonup> kind" where
  "example_fs =
     [''/'' \<mapsto> Dir, ''/srv'' \<mapsto> Dir, ''/srv/notes.txt'' \<mapsto> File, ''/srv/out'' \<mapsto> Dir,
      ''/srv/out/1789'' \<mapsto> Dir, ''/srv/out/1789/2015'' \<mapsto> Dir,
      ''/srv/out/1789/2015/5635048.pdf'' \<mapsto> File]"

definition example_world :: world where
  "example_world = \<lparr>cwd = ''/srv'', fs = example_fs, requests = [], dispatched = []\<rparr>"

text \<open>A server that holds one receipt and answers every other URL with an HTTP error.\<close>

definition example_net :: "string \<Rightarrow> response" where
  "example_net u =
     (if u = ''http://www.camara.gov.br/cota-parlamentar/documentos/publ/1789/2015/5635049.pdf''
      then Response [(''Content-Type'', ''application/pdf''), (''Content-Length'', ''1024'')]
      else Raises (HTTPError ''<HTTPError 404: Not Found>''))"

text \<open>A network that is down: every request fails before a response arrives.\<close>

definition offline_net :: "string \<Rightarrow> response" where
  "offline_net u = Raises (URLError ''<urlopen error timed out>'')"

text \<open>
  Three descriptors: the first is on disk already, the server holds the second, and the
  third is unknown to it.
\<close>

definition receipt1 :: receipt where
  "receipt1 = \<lparr>applicant_id = PyInt 1789, year = PyInt 2015, document_id = PyStr ''5635048'',
      target = ''out''\<rparr>"

definition receipt2 :: receipt where
  "receipt2 = \<lparr>applicant_id = PyInt 1789, year = PyInt 2015, document_id = PyStr ''5635049'',
      target = ''out''\<rparr>"

definition receipt3 :: receipt where
  "receipt3 = \<lparr>applicant_id = PyInt 1789, year = PyInt 2015, document_id = PyStr ''5635050'',
      target = ''out''\<rparr>"

text \<open>
  A data directory with one dataset of four rows, one of them without a document
  identifier, and a file that is no dataset.
\<close>

definition example_listing :: "(string \<times> csv_row list) list" where
  "example_listing =
     [(''2016-08-08-last-year.xz'',
       [\<lparr>csv_applicant_id = PyInt 1789, csv_year = PyInt 2015, csv_document_id = ''5635048''\<rparr>,
        \<lparr>csv_applicant_id = PyInt 1789, csv_year = PyInt 2015, csv_document_id = ''5635049''\<rparr>,
        \<lparr>csv_applicant_id = PyInt 1789, csv_year = PyInt 2015, csv_document_id = []\<rparr>,
        \<lparr>csv_applicant_id = PyInt 1789, csv_year = PyInt 2015, csv_document_id = ''5635050''\<rparr>]),
      (''README.md'', [])]"

text \<open>
  The worlds and the progress after the first, the second and the third of these
  descriptors have been handled with \<open>example_net\<close>, and the world in which the second
  request has failed with \<open>offline_net\<close>.
\<close>

definition world1 :: world where
  "world1 = \<lparr>cwd = ''/srv'', fs = example_fs, requests = [], dispatched = [receipt1]\<rparr>"

definition progress1 :: progress where
  "progress1 = \<lparr>count = 0, size_bytes = 0, errors = [], skipped = [url receipt1]\<rparr>"

definition world2 :: world where
  "world2 =
     \<lparr>cwd = ''/srv'', fs = example_fs(''/srv/out/1789/2015/5635049.pdf'' \<mapsto> File),
      requests = [url receipt2], dispatched = [receipt1, receipt2]\<rparr>"

definition progress2 :: progress where
  "progress2 = \<lparr>count = 1, size_bytes = 1024, errors = [], skipped = [url receipt1]\<rparr>"

definition world3 :: world where
  "world3 =
     \<lparr>cwd = ''/srv'', fs = example_fs(''/srv/out/1789/2015/5635049.pdf'' \<mapsto> File),
      requests = [url receipt2, url receipt3], dispatched = [receipt1, receipt2, receipt3]\<rparr>"

definition progress3 :: progress where
  "progress3 =
     \<lparr>count = 1, size_bytes = 1024, errors = [url receipt3], skipped = [url receipt1]\<rparr>"


section \<open>Properties\<close>

subsection \<open>Helper facts\<close>

lemma empty_is_na: "[] \<in> set na_values"
  by (simp add: na_values_def)

lemma isnull_read_row: "isnull (row_document_id (read_row c)) = (\<not> has_document_id c)"
  using empty_is_na by (auto simp add: read_row_def read_cell_def has_document_id_def)

lemma all_from_filter:
  "all_from tgt ds =
     map (\<lambda>c. Receipt_init (read_row c) tgt) (filter has_document_id (concat (map snd ds)))"
proof (induction ds)
  case Nil
  show ?case by simp
next
  case (Cons d ds)
  obtain file_name content where d: "d = (file_name, content)"
    by (cases d)
  have "[Receipt_init r tgt. r \<leftarrow> read_csv content, \<not> isnull (row_document_id r)] =
        map (\<lambda>c. Receipt_init (read_row c) tgt) (filter has_document_id content)"
    by (induction content) (simp_all add: read_csv_def isnull_read_row)
  with Cons d show ?case
    by simp
qed

lemma join_step_plain:
  "p \<noteq> [] \<Longrightarrow> last p \<noteq> CHR ''/'' \<Longrightarrow> \<not> startswith_sep b \<Longrightarrow> join_step p b = p @ ''/'' @ b"
  by (simp add: join_step_def endswith_sep_def)

lemma plain_not_startswith: "plain_component s \<Longrightarrow> \<not> startswith_sep s"
  by (cases s) (simp_all add: plain_component_def startswith_sep_def)

lemma mkdir_dispatched: "mkdir w name = (x, w') \<Longrightarrow> dispatched w' = dispatched w"
  by (auto simp add: mkdir_def split: if_splits option.splits)

lemma mkdir_exist_ok_dispatched:
  "mkdir_exist_ok w name = (x, w') \<Longrightarrow> dispatched w' = dispatched w"
  by (auto simp add: mkdir_exist_ok_def split: prod.splits option.splits if_splits
      dest: mkdir_dispatched)

lemma makedirs_dispatched: "makedirs w name = (x, w') \<Longrightarrow> dispatched w' = dispatched w"
proof (induction w name arbitrary: x w' rule: makedirs.induct)
  case (1 w name)
  show ?case
  proof (cases "fst (makedirs_split name) \<noteq> [] \<and> snd (makedirs_split name) \<noteq> []
         \<and> \<not> path_exists w (fst (makedirs_split name))")
    case True
    obtain y w1 where inner: "makedirs w (fst (makedirs_split name)) = (y, w1)"
      by (cases "makedirs w (fst (makedirs_split name))")
    from "1.IH" [OF True inner] have d1: "dispatched w1 = dispatched w"
      by simp
    from "1.prems" True inner have "w' = w1 \<or> mkdir_exist_ok w1 name = (x, w')"
      by (subst (asm) makedirs.simps) (auto split: option.splits exn.splits if_splits)
    with d1 show ?thesis
      by (auto dest: mkdir_exist_ok_dispatched)
  next
    case False
    with "1.prems" have "mkdir_exist_ok w name = (x, w')"
      by (subst (asm) makedirs.simps) auto
    then show ?thesis
      by (rule mkdir_exist_ok_dispatched)
  qed
qed

lemma open_wb_dispatched: "open_wb w f = (x, w') \<Longrightarrow> dispatched w' = dispatched w"
  by (auto simp add: open_wb_def split: if_splits option.splits)

lemma urlretrieve_dispatched:
  "urlretrieve net w u f = (x, w') \<Longrightarrow> dispatched w' = dispatched w"
  by (auto simp add: urlretrieve_def Let_def split: response.splits prod.splits option.splits
      dest: open_wb_dispatched)

lemma download_receipt_dispatched:
  "download_receipt net w r = (x, w') \<Longrightarrow> dispatched w' = dispatched w"
  by (auto simp add: download_receipt_def Let_def
      split: prod.splits option.splits if_splits sum.splits exn.splits
      dest!: makedirs_dispatched urlretrieve_dispatched)

lemma consume_counted:
  "consume p res = Inr p' \<Longrightarrow> outcomes_counted p' = outcomes_counted p + 1"
  by (cases res) (auto simp add: outcomes_counted_def Let_def split: sum.splits)

lemma consume_count:
  "consume p res = Inr p' \<Longrightarrow> count p \<le> count p' \<and> count p' \<le> count p + 1"
  by (cases res) (auto simp add: Let_def split: sum.splits)

lemma imap_loop_facts:
  "imap_loop net w rs p = (Inr p', w') \<Longrightarrow>
     outcomes_counted p' = outcomes_counted p + int (length rs) \<and>
     dispatched w' = dispatched w @ rs \<and>
     count p \<le> count p' \<and> count p' \<le> count p + int (length rs)"
proof (induction rs arbitrary: w p)
  case Nil
  then show ?case by simp
next
  case (Cons r rs)
  from Cons.prems obtain res w1 p1 where
    d: "download_receipt net (w\<lparr>dispatched := dispatched w @ [r]\<rparr>) r = (Inr res, w1)"
    and c: "consume p res = Inr p1"
    and rest: "imap_loop net w1 rs p1 = (Inr p', w')"
    by (auto split: prod.splits sum.splits)
  from download_receipt_dispatched [OF d] have "dispatched w1 = dispatched w @ [r]"
    by simp
  with Cons.IH [OF rest] consume_counted [OF c] consume_count [OF c] show ?case
    by simp
qed

lemmas run_loop_induct = run_loop.raw_induct [rotated, consumes 1, case_names step]

lemma run_loop_counted:
  assumes "run_loop net limit w rs p = Some y"
  shows "\<forall>p' w'. y = (Inr p', w') \<longrightarrow>
        outcomes_counted p' - outcomes_counted p =
          int (length (dispatched w')) - int (length (dispatched w))"
  using assms
proof (induct rule: run_loop_induct)
  case (step run_loop net limit w receipts p y)
  show ?case
  proof (intro allI impI)
    fix p' w'
    assume y: "y = (Inr p', w')"
    from step(2) y obtain cur rest where b: "cur_batch limit receipts p = Inr (cur, rest)"
      by (auto split: sum.splits)
    with step(2) y obtain p1 w1 where i: "imap_loop net w cur p = (Inr p1, w1)"
      by (auto split: sum.splits prod.splits if_splits)
    note f = imap_loop_facts [OF i]
    show "outcomes_counted p' - outcomes_counted p =
          int (length (dispatched w')) - int (length (dispatched w))"
    proof (cases "exit_condition limit p1")
      case True
      with step(2) y b i have "p' = p1" "w' = w1"
        by simp_all
      with f show ?thesis by simp
    next
      case False
      with step(2) b i have "run_loop net limit w1 rest p1 = Some y"
        by simp
      from step(1) [OF this] y f show ?thesis by simp
    qed
  qed
qed

lemma run_loop_count_le:
  assumes "run_loop net limit w rs p = Some y"
  shows "\<forall>l p' w'. limit = Some l \<longrightarrow> 0 < l \<longrightarrow> count p \<le> l \<longrightarrow> y = (Inr p', w')
           \<longrightarrow> count p' \<le> l"
  using assms
proof (induct rule: run_loop_induct)
  case (step run_loop net limit w receipts p y)
  show ?case
  proof (intro allI impI)
    fix l p' w'
    assume l: "limit = Some l" "0 < l" "count p \<le> l" and y: "y = (Inr p', w')"
    from step(2) y obtain cur rest where b: "cur_batch limit receipts p = Inr (cur, rest)"
      by (auto split: sum.splits)
    with step(2) y obtain p1 w1 where i: "imap_loop net w cur p = (Inr p1, w1)"
      by (auto split: sum.splits prod.splits if_splits)
    note f = imap_loop_facts [OF i]
    from b l have "int (length cur) \<le> l - count p"
      by (auto simp add: cur_batch_def islice_def split: if_splits)
    with f have le: "count p1 \<le> l" by simp
    show "count p' \<le> l"
    proof (cases "exit_condition limit p1")
      case True
      with step(2) y b i have "p' = p1"
        by simp
      with le show ?thesis by simp
    next
      case False
      with step(2) b i have "run_loop net limit w1 rest p1 = Some y"
        by simp
      from step(1) [OF this] l y le show ?thesis by blast
    qed
  qed
qed

lemma run_loop_exhausted_aux:
  assumes "run_loop net limit w rs p = Some y"
  shows "\<not> (\<exists>l. limit = Some l \<and> l \<noteq> 0 \<and> rs = [] \<and> count p < l \<and> l - count p \<le> maxsize)"
  using assms
proof (induct rule: run_loop_induct)
  case (step run_loop net limit w receipts p y)
  show ?case
  proof
    assume "\<exists>l. limit = Some l \<and> l \<noteq> 0 \<and> receipts = [] \<and> count p < l \<and> l - count p \<le> maxsize"
    then obtain l where l: "limit = Some l" "l \<noteq> 0" "receipts = []" "count p < l"
      "l - count p \<le> maxsize"
      by blast
    then have "cur_batch limit receipts p = Inr ([], [])"
      by (simp add: cur_batch_def islice_def)
    moreover have "\<not> exit_condition limit p"
      using l by (simp add: exit_condition_def)
    ultimately have "run_loop net limit w [] p = Some y"
      using step(2) by simp
    from step(1) [OF this] l show False
      by simp
  qed
qed

lemma run_loop_exhausted:
  "l \<noteq> 0 \<Longrightarrow> count p < l \<Longrightarrow> l - count p \<le> maxsize \<Longrightarrow> run_loop net (Some l) w [] p = None"
  using run_loop_exhausted_aux [of net "Some l" w "[]" p]
  by (cases "run_loop net (Some l) w [] p") auto

lemma psplit_head_shape:
  assumes "psplit p = (h, t)"
  shows "h = [] \<or> h = replicate (length h) CHR ''/'' \<or> last h \<noteq> CHR ''/''"
proof -
  let ?h0 = "take (length p - length (rev (takeWhile (\<lambda>c. c \<noteq> CHR ''/'') (rev p)))) p"
  show ?thesis
  proof (cases "?h0 \<noteq> [] \<and> ?h0 \<noteq> replicate (length ?h0) CHR ''/''")
    case True
    with assms have h: "h = rev (dropWhile (\<lambda>c. c = CHR ''/'') (rev ?h0))"
      by (auto simp add: psplit_def Let_def split: if_splits)
    show ?thesis
    proof (cases "h = []")
      case False
      with h have "dropWhile (\<lambda>c. c = CHR ''/'') (rev ?h0) \<noteq> []"
        by simp
      from hd_dropWhile [OF this] h False have "last h \<noteq> CHR ''/''"
        by (simp add: last_rev)
      then show ?thesis by simp
    qed simp
  next
    case False
    with assms have "h = ?h0"
      by (auto simp add: psplit_def Let_def)
    with False show ?thesis by auto
  qed
qed

lemma psplit_tail_nonempty: "d \<noteq> [] \<Longrightarrow> last d \<noteq> CHR ''/'' \<Longrightarrow> snd (psplit d) \<noteq> []"
proof -
  assume "d \<noteq> []" "last d \<noteq> CHR ''/''"
  then have "takeWhile (\<lambda>c. c \<noteq> CHR ''/'') (rev d) \<noteq> []"
    by (cases "rev d") (auto simp add: last_rev [symmetric] hd_rev)
  then show ?thesis
    by (simp add: psplit_def Let_def)
qed

lemma psplit_slashes: "psplit (replicate n CHR ''/'') = (replicate n CHR ''/'', [])"
  by (cases n) (simp_all add: psplit_def Let_def replicate_append_same [symmetric]
      del: replicate_Suc)

lemma makedirs_split_dirname:
  assumes "fst (makedirs_split (dirname p)) \<noteq> []" and "snd (makedirs_split (dirname p)) \<noteq> []"
  shows "fst (makedirs_split (dirname p)) = dirname (dirname p)"
proof -
  obtain h t where s: "psplit p = (h, t)"
    by (cases "psplit p")
  then have d: "dirname p = h"
    by (simp add: dirname_def)
  from psplit_head_shape [OF s] consider "h = []" | "h = replicate (length h) CHR ''/''"
    | "h \<noteq> []" "last h \<noteq> CHR ''/''"
    by blast
  then show ?thesis
  proof cases
    case 1
    with assms d show ?thesis
      by (simp add: makedirs_split_def psplit_def)
  next
    case 2
    then have "psplit h = (h, [])"
      using psplit_slashes [of "length h"] by simp
    with assms d show ?thesis
      by (simp add: makedirs_split_def)
  next
    case 3
    from psplit_tail_nonempty [OF 3] have "snd (psplit h) \<noteq> []" .
    then have "makedirs_split h = psplit h"
      by (cases "psplit h") (simp add: makedirs_split_def)
    with d show ?thesis
      by (simp add: dirname_def)
  qed
qed

lemma path_isdir_exists: "path_isdir w d \<Longrightarrow> path_exists w d"
  by (simp add: path_isdir_def path_exists_def split: option.splits)

lemma path_isfile_exists: "path_isfile w d \<Longrightarrow> path_exists w d"
  by (simp add: path_isfile_def path_exists_def split: option.splits)

lemma mkdir_exist_ok_existing: "path_isdir w d \<Longrightarrow> mkdir_exist_ok w d = (None, w)"
  by (simp add: mkdir_exist_ok_def mkdir_def path_isdir_exists)

lemma makedirs_existing:
  assumes "path_isdir w (dirname p)" and "path_exists w (dirname (dirname p))"
  shows "makedirs w (dirname p) = (None, w)"
proof -
  have nc: "\<not> (fst (makedirs_split (dirname p)) \<noteq> [] \<and> snd (makedirs_split (dirname p)) \<noteq> []
         \<and> \<not> path_exists w (fst (makedirs_split (dirname p))))"
  proof
    assume c: "fst (makedirs_split (dirname p)) \<noteq> [] \<and> snd (makedirs_split (dirname p)) \<noteq> []
         \<and> \<not> path_exists w (fst (makedirs_split (dirname p)))"
    then have "fst (makedirs_split (dirname p)) = dirname (dirname p)"
      by (intro makedirs_split_dirname) blast+
    with assms(2) c show False
      by simp
  qed
  have "makedirs w (dirname p) = mkdir_exist_ok w (dirname p)"
    by (subst makedirs.simps) (simp only: nc if_False)
  with assms(1) show ?thesis
    by (simp add: mkdir_exist_ok_existing)
qed

lemma run_loop_unlimited:
  "\<not> (\<exists>l. limit = Some l \<and> l \<noteq> 0) \<Longrightarrow> run_loop net limit w rs p = Some (imap_loop net w rs p)"
  by (subst run_loop.simps)
    (auto simp add: cur_batch_def exit_condition_def split: option.splits sum.splits prod.splits)

lemma run_loop_step:
  assumes "cur_batch limit rs p = Inr (cur, rest)" and "fst (imap_loop net w cur p) = Inr p'"
  shows "run_loop net limit w rs p =
    (if exit_condition limit p' then Some (Inr p', snd (imap_loop net w cur p))
     else run_loop net limit (snd (imap_loop net w cur p)) rest p')"
  using assms by (subst run_loop.simps) (auto split: prod.splits)

lemma imap_loop_Cons_fst:
  assumes "fst (download_receipt net (w\<lparr>dispatched := dispatched w @ [r]\<rparr>) r) = Inr res"
    and "consume p res = Inr p'"
  shows "imap_loop net w (r # rs) p =
     imap_loop net (snd (download_receipt net (w\<lparr>dispatched := dispatched w @ [r]\<rparr>) r)) rs p'"
  using assms by (auto split: prod.splits)

lemma walk_append:
  "walk f cur (cs @ ds) = (case walk f cur cs of None \<Rightarrow> None | Some d \<Rightarrow> walk f d ds)"
proof (induction cs arbitrary: cur)
  case Nil
  show ?case
    by (cases ds) auto
next
  case (Cons c cs)
  then show ?case
    by simp
qed

lemma walk_empties:
  "walk f cur (replicate m []) =
     (if f cur = Some Dir \<or> (m = 0 \<and> f cur \<noteq> None) then Some cur else None)"
  by (induction m) auto

lemma split_sep_append_sep:
  "split_sep acc (h @ CHR ''/'' # t) = split_sep acc h @ split_sep [] t"
  by (induction h arbitrary: acc) simp_all

lemma split_sep_no_sep: "CHR ''/'' \<notin> set t \<Longrightarrow> split_sep acc t = [rev acc @ t]"
  by (induction t arbitrary: acc) auto

lemma split_sep_slashes: "split_sep [] (replicate m CHR ''/'') = replicate (Suc m) []"
  by (induction m) simp_all

lemma split_sep_append_slashes:
  "split_sep acc (s @ replicate m CHR ''/'') = split_sep acc s @ replicate m []"
proof (cases m)
  case 0
  then show ?thesis by simp
next
  case (Suc k)
  have "split_sep acc (s @ CHR ''/'' # replicate k CHR ''/'') =
      split_sep acc s @ split_sep [] (replicate k CHR ''/'')"
    by (rule split_sep_append_sep)
  with Suc show ?thesis
    by (simp add: split_sep_slashes)
qed

lemma walk_append_slashes:
  "walk f cur (split_sep [] (s @ replicate m CHR ''/'')) =
     (case walk f cur (split_sep [] s) of
        None \<Rightarrow> None
      | Some d \<Rightarrow> if f d = Some Dir \<or> (m = 0 \<and> f d \<noteq> None) then Some d else None)"
  by (simp only: split_sep_append_slashes walk_append walk_empties)

lemma psplit_alt:
  "psplit p =
     (let t = rev (takeWhile (\<lambda>c. c \<noteq> CHR ''/'') (rev p));
          h0 = rev (dropWhile (\<lambda>c. c \<noteq> CHR ''/'') (rev p))
      in if h0 \<noteq> [] \<and> h0 \<noteq> replicate (length h0) CHR ''/'' then (rstrip_sep h0, t)
         else (h0, t))"
proof -
  let ?t = "rev (takeWhile (\<lambda>c. c \<noteq> CHR ''/'') (rev p))"
  let ?h0 = "rev (dropWhile (\<lambda>c. c \<noteq> CHR ''/'') (rev p))"
  have "rev p = takeWhile (\<lambda>c. c \<noteq> CHR ''/'') (rev p) @ dropWhile (\<lambda>c. c \<noteq> CHR ''/'') (rev p)"
    by simp
  then have "rev (rev p) = ?h0 @ ?t"
    by (simp only: rev_append [symmetric])
  then have p: "p = ?h0 @ ?t"
    by simp
  have "take (length p - length ?t) p = take (length ?h0) (?h0 @ ?t)"
    by (subst (1 2) p) simp
  then have eq: "take (length p - length ?t) p = ?h0"
    by simp
  show ?thesis
    unfolding psplit_def Let_def rstrip_sep_def eq ..
qed

lemma rstrip_sep_decomp:
  "\<exists>k. h = rstrip_sep h @ replicate k CHR ''/''"
proof -
  have "rev h = takeWhile (\<lambda>c. c = CHR ''/'') (rev h) @ dropWhile (\<lambda>c. c = CHR ''/'') (rev h)"
    by simp
  then have "rev (rev h) = rstrip_sep h @ rev (takeWhile (\<lambda>c. c = CHR ''/'') (rev h))"
    by (simp only: rev_append [symmetric] rstrip_sep_def)
  moreover have "replicate (length (rev (takeWhile (\<lambda>c. c = CHR ''/'') (rev h)))) CHR ''/'' =
      rev (takeWhile (\<lambda>c. c = CHR ''/'') (rev h))"
    by (rule replicate_length_same) (auto dest: set_takeWhileD)
  ultimately show ?thesis
    by (metis rev_rev_ident)
qed

lemma dirname_decomp:
  assumes "CHR ''/'' \<in> set p"
  shows "\<exists>h' t k. p = h' @ CHR ''/'' # t \<and> CHR ''/'' \<notin> set t \<and>
           ((dirname p = h' @ [CHR ''/''] \<and> h' = replicate k CHR ''/'') \<or>
            (dirname p \<noteq> [] \<and> h' = dirname p @ replicate k CHR ''/''))"
proof -
  let ?t = "rev (takeWhile (\<lambda>c. c \<noteq> CHR ''/'') (rev p))"
  let ?h0 = "rev (dropWhile (\<lambda>c. c \<noteq> CHR ''/'') (rev p))"
  have "rev p = takeWhile (\<lambda>c. c \<noteq> CHR ''/'') (rev p) @ dropWhile (\<lambda>c. c \<noteq> CHR ''/'') (rev p)"
    by simp
  then have "rev (rev p) = ?h0 @ ?t"
    by (simp only: rev_append [symmetric])
  then have p: "p = ?h0 @ ?t"
    by simp
  have t: "CHR ''/'' \<notin> set ?t"
    by (auto dest: set_takeWhileD)
  have ne: "dropWhile (\<lambda>c. c \<noteq> CHR ''/'') (rev p) \<noteq> []"
    using assms by (simp add: dropWhile_eq_Nil_conv)
  from hd_dropWhile [OF ne] have "hd (dropWhile (\<lambda>c. c \<noteq> CHR ''/'') (rev p)) = CHR ''/''"
    by simp
  with ne have l: "last ?h0 = CHR ''/''"
    by (simp add: last_rev)
  from ne have h0: "?h0 \<noteq> []"
    by simp
  define h' where "h' = butlast ?h0"
  from h0 l have h: "?h0 = h' @ [CHR ''/'']"
    unfolding h'_def by (metis append_butlast_last_id)
  with p have p': "p = h' @ CHR ''/'' # ?t"
    by simp
  show ?thesis
  proof (cases "?h0 = replicate (length ?h0) CHR ''/''")
    case True
    then have d: "dirname p = ?h0"
      by (simp add: dirname_def psplit_alt Let_def)
    from True h have "h' @ [CHR ''/''] = replicate (length h') CHR ''/'' @ [CHR ''/'']"
      by (simp add: replicate_append_same)
    then have "h' = replicate (length h') CHR ''/''"
      by simp
    with d h p' t show ?thesis
      by metis
  next
    case False
    with h0 have d: "dirname p = rstrip_sep ?h0"
      by (simp add: dirname_def psplit_alt Let_def)
    from rstrip_sep_decomp [of ?h0] obtain k where k: "?h0 = rstrip_sep ?h0 @ replicate k CHR ''/''"
      by blast
    from False k have dn: "rstrip_sep ?h0 \<noteq> []"
      by (metis append_Nil length_replicate)
    have kp: "k \<noteq> 0"
    proof
      assume "k = 0"
      with k have "rstrip_sep ?h0 = ?h0"
        by simp
      with l have "last (rev (dropWhile (\<lambda>c. c = CHR ''/'') (rev ?h0))) = CHR ''/''"
        by (simp add: rstrip_sep_def)
      moreover from dn have "dropWhile (\<lambda>c. c = CHR ''/'') (rev ?h0) \<noteq> []"
        by (simp add: rstrip_sep_def)
      ultimately show False
        using hd_dropWhile [of "\<lambda>c. c = CHR ''/''" "rev ?h0"] by (simp add: last_rev)
    qed
    then obtain j where j: "k = Suc j"
      by (cases k) simp_all
    from k j h have "h' @ [CHR ''/''] = (rstrip_sep ?h0 @ replicate j CHR ''/'') @ [CHR ''/'']"
      by (simp add: replicate_append_same)
    then have "h' = rstrip_sep ?h0 @ replicate j CHR ''/''"
      by simp
    with d dn p' t show ?thesis
      by metis
  qed
qed

lemma startswith_sep_append: "startswith_sep (a @ b) \<Longrightarrow> a \<noteq> [] \<Longrightarrow> startswith_sep a"
  by (cases a) (simp_all add: startswith_sep_def)

lemma startswith_sep_in_set: "startswith_sep p \<Longrightarrow> CHR ''/'' \<in> set p"
  by (cases p) (simp_all add: startswith_sep_def)

lemma dirname_isdir:
  assumes "startswith_sep p" and "last p \<noteq> CHR ''/''" and "path_exists w p"
  shows "path_isdir w (dirname p) \<and> startswith_sep (dirname p)"
proof -
  from dirname_decomp [OF startswith_sep_in_set [OF assms(1)]]
  obtain h' t k where p: "p = h' @ CHR ''/'' # t" and t: "CHR ''/'' \<notin> set t"
    and c: "(dirname p = h' @ [CHR ''/''] \<and> h' = replicate k CHR ''/'') \<or>
            (dirname p \<noteq> [] \<and> h' = dirname p @ replicate k CHR ''/'')"
    by blast
  let ?f = "fs w"
  from assms(1,3) obtain q where "walk ?f ''/'' (split_sep [] p) = Some q"
    by (auto simp add: path_exists_def resolve_def split: if_splits)
  then have "walk ?f ''/'' (split_sep [] h' @ [t]) = Some q"
    by (simp add: p split_sep_append_sep split_sep_no_sep [OF t])
  then obtain d where d: "walk ?f ''/'' (split_sep [] h') = Some d" and "walk ?f d [t] = Some q"
    by (auto simp add: walk_append split: option.splits)
  then have dir: "?f d = Some Dir"
    by (auto split: if_splits)
  from c show ?thesis
  proof
    assume a: "dirname p = h' @ [CHR ''/''] \<and> h' = replicate k CHR ''/''"
    then have n: "dirname p = [] @ replicate (Suc k) CHR ''/''"
      by (metis append_Nil replicate_Suc replicate_append_same)
    from a d have "walk ?f ''/'' (split_sep [] ([] @ replicate k CHR ''/'')) = Some d"
      by simp
    with dir have "walk ?f ''/'' (split_sep [] []) = Some d"
      unfolding walk_append_slashes by (auto split: option.splits if_splits)
    with dir have "walk ?f ''/'' (split_sep [] (dirname p)) = Some d"
      unfolding n walk_append_slashes by simp
    moreover from n have "startswith_sep (dirname p)"
      by (simp add: startswith_sep_def)
    ultimately show ?thesis
      using dir n by (simp add: path_isdir_def resolve_def)
  next
    assume a: "dirname p \<noteq> [] \<and> h' = dirname p @ replicate k CHR ''/''"
    with d have "walk ?f ''/'' (split_sep [] (dirname p @ replicate k CHR ''/'')) = Some d"
      by simp
    then have r: "walk ?f ''/'' (split_sep [] (dirname p)) = Some d"
      unfolding walk_append_slashes by (auto split: option.splits if_splits)
    from a p have "p = dirname p @ (replicate k CHR ''/'' @ CHR ''/'' # t)"
      by simp
    with assms(1) a have "startswith_sep (dirname p)"
      by (metis startswith_sep_append)
    with r dir a show ?thesis
      by (simp add: path_isdir_def resolve_def)
  qed
qed

lemma path_isfile_last:
  assumes "path_isfile w p"
  shows "last p \<noteq> CHR ''/''"
proof
  assume l: "last p = CHR ''/''"
  from assms obtain q where r: "resolve w p = Some q" and f: "fs w q = Some File"
    by (auto simp add: path_isfile_def split: option.splits)
  then have ne: "p \<noteq> []"
    by (auto simp add: resolve_def)
  with l have p: "p = butlast p @ CHR ''/'' # []"
    by (metis append_butlast_last_id)
  let ?s = "if startswith_sep p then ''/'' else cwd w"
  from r ne have "walk (fs w) ?s (split_sep [] p) = Some q"
    by (simp add: resolve_def)
  then have "walk (fs w) ?s (split_sep [] (butlast p) @ [[]]) = Some q"
    by (subst (asm) p) (simp only: split_sep_append_sep split_sep.simps rev.simps)
  then obtain d where "walk (fs w) d [[]] = Some q"
    by (auto simp add: walk_append split: option.splits)
  then have "fs w q = Some Dir"
    by (auto split: if_splits)
  with f show False
    by simp
qed

lemma makedirs_of_file:
  assumes "startswith_sep p" and "path_isfile w p"
  shows "makedirs w (dirname p) = (None, w)"
proof -
  from dirname_isdir [OF assms(1) path_isfile_last [OF assms(2)] path_isfile_exists [OF assms(2)]]
  have d: "path_isdir w (dirname p)" and s: "startswith_sep (dirname p)"
    by simp_all
  obtain h t where sp: "psplit p = (h, t)"
    by (cases "psplit p")
  then have h: "dirname p = h"
    by (simp add: dirname_def)
  from s have ne: "dirname p \<noteq> []"
    by (auto simp add: startswith_sep_def)
  have "path_exists w (dirname (dirname p))"
  proof (cases "h = replicate (length h) CHR ''/''")
    case True
    then have "dirname h = h"
      using psplit_slashes [of "length h"] by (simp add: dirname_def)
    with d h show ?thesis
      by (simp add: path_isdir_exists)
  next
    case False
    with psplit_head_shape [OF sp] ne h have "last (dirname p) \<noteq> CHR ''/''"
      by simp
    from dirname_isdir [OF s this path_isdir_exists [OF d]] show ?thesis
      by (simp add: path_isdir_exists)
  qed
  with d show ?thesis
    by (rule makedirs_existing)
qed

lemma startswith_sep_join_step: "startswith_sep a \<Longrightarrow> startswith_sep (join_step a b)"
  by (cases a) (simp_all add: join_step_def startswith_sep_def)

lemma startswith_sep_join: "startswith_sep a \<Longrightarrow> startswith_sep (join a ps)"
  unfolding join_def by (induction ps arbitrary: a) (simp_all add: startswith_sep_join_step)

lemma startswith_sep_normpath:
  assumes "startswith_sep p"
  shows "startswith_sep (normpath p)"
proof -
  from assms have "initial_slashes p = 1 \<or> initial_slashes p = 2"
    by (simp add: initial_slashes_def)
  then obtain m where "initial_slashes p = Suc m"
    by (cases "initial_slashes p") auto
  moreover from assms have "p \<noteq> []"
    by (auto simp add: startswith_sep_def)
  ultimately show ?thesis
    by (simp add: normpath_def Let_def startswith_sep_def)
qed

lemma startswith_sep_path: "startswith_sep wd \<Longrightarrow> startswith_sep (path wd r)"
  unfolding path_def abspath_def
  by (intro startswith_sep_join startswith_sep_normpath) (simp add: startswith_sep_join)

lemma download_receipt_skip:
  assumes "makedirs w (dirname (path (cwd w) r)) = (None, w1)"
    and "path_exists w1 (path (cwd w) r)"
  shows "download_receipt net w r = (Inr (Skipped r (url r)), w1)"
  using assms by (simp add: download_receipt_def)

lemma download_receipt_fetch:
  assumes "makedirs w (dirname (path (cwd w) r)) = (None, w1)"
    and "\<not> path_exists w1 (path (cwd w) r)"
  shows "download_receipt net w r =
     (case urlretrieve net w1 (url r) (path (cwd w) r) of
        (Inr (file_name, header), w2) \<Rightarrow> (Inr (Ok r header), w2)
      | (Inl (HTTPError e), w2) \<Rightarrow> (Inr (Error r e), w2)
      | (Inl e, w2) \<Rightarrow> (Inl e, w2))"
  using assms by (simp add: download_receipt_def)

lemma imap_loop_Cons_result:
  assumes "download_receipt net (w\<lparr>dispatched := dispatched w @ [r]\<rparr>) r = (Inr res, w')"
    and "consume p res = Inr p'"
  shows "imap_loop net w (r # rs) p = imap_loop net w' rs p'"
  using assms by simp


lemma open_wb_new:
  assumes "\<not> endswith_sep f" and "new_node w f = Some q" and "fs w q \<noteq> Some Dir"
  shows "open_wb w f = (None, w\<lparr>fs := (fs w)(q \<mapsto> File)\<rparr>)"
  using assms by (simp add: open_wb_def)

lemma urlretrieve_response:
  assumes "net u = Response header"
    and "open_wb (w\<lparr>requests := requests w @ [u]\<rparr>) f = (None, w')"
  shows "urlretrieve net w u f = (Inr (f, header), w')"
  using assms by (simp add: urlretrieve_def Let_def)

lemma urlretrieve_raises:
  "net u = Raises e \<Longrightarrow> urlretrieve net w u f = (Inl e, w\<lparr>requests := requests w @ [u]\<rparr>)"
  by (simp add: urlretrieve_def Let_def)

lemma example_step1:
  "imap_loop net example_world (receipt1 # rs) progress0 = imap_loop net world1 rs progress1"
proof -
  let ?w = "example_world\<lparr>dispatched := dispatched example_world @ [receipt1]\<rparr>"
  have a: "path_isdir ?w (dirname (path (cwd ?w) receipt1))"
    and b: "path_exists ?w (dirname (dirname (path (cwd ?w) receipt1)))"
    and c: "path_exists ?w (path (cwd ?w) receipt1)"
    by code_simp+
  have w: "?w = world1"
    by (simp add: world1_def example_world_def)
  have d: "download_receipt net ?w receipt1 = (Inr (Skipped receipt1 (url receipt1)), ?w)"
    by (rule download_receipt_skip [OF makedirs_existing [OF a b] c])
  have "imap_loop net example_world (receipt1 # rs) progress0 = imap_loop net ?w rs progress1"
    by (rule imap_loop_Cons_result [OF d]) (simp add: progress1_def progress0_def)
  then show ?thesis
    by (simp only: w)
qed

lemma example_step2:
  "imap_loop example_net world1 (receipt2 # rs) progress1 = imap_loop example_net world2 rs progress2"
proof -
  let ?w = "world1\<lparr>dispatched := dispatched world1 @ [receipt2]\<rparr>"
  let ?w' = "?w\<lparr>requests := requests ?w @ [url receipt2]\<rparr>"
  let ?h = "[(''Content-Type'', ''application/pdf''), (''Content-Length'', ''1024'')]"
  let ?q = "''/srv/out/1789/2015/5635049.pdf''"
  have a: "path_isdir ?w (dirname (path (cwd ?w) receipt2))"
    and b: "path_exists ?w (dirname (dirname (path (cwd ?w) receipt2)))"
    and c: "\<not> path_exists ?w (path (cwd ?w) receipt2)"
    by code_simp+
  have n: "example_net (url receipt2) = Response ?h"
    by code_simp
  have e: "\<not> endswith_sep (path (cwd ?w) receipt2)"
    and f: "new_node ?w' (path (cwd ?w) receipt2) = Some ?q"
    and g: "fs ?w' ?q \<noteq> Some Dir"
    by code_simp+
  have w: "?w'\<lparr>fs := (fs ?w')(?q \<mapsto> File)\<rparr> = world2"
    by (simp add: world1_def world2_def)
  have o: "open_wb ?w' (path (cwd ?w) receipt2) = (None, world2)"
    using open_wb_new [OF e f g] by (simp only: w)
  have "download_receipt example_net ?w receipt2 = (Inr (Ok receipt2 ?h), world2)"
    unfolding download_receipt_fetch [OF makedirs_existing [OF a b] c]
      urlretrieve_response [of example_net "url receipt2" ?h ?w "path (cwd ?w) receipt2" world2,
        OF n o]
    by simp
  moreover have "consume progress1 (Ok receipt2 ?h) = Inr progress2"
    by code_simp
  ultimately show ?thesis
    by (rule imap_loop_Cons_result)
qed

lemma example_step3:
  "imap_loop example_net world2 (receipt3 # rs) progress2 = imap_loop example_net world3 rs progress3"
proof -
  let ?w = "world2\<lparr>dispatched := dispatched world2 @ [receipt3]\<rparr>"
  have a: "path_isdir ?w (dirname (path (cwd ?w) receipt3))"
    and b: "path_exists ?w (dirname (dirname (path (cwd ?w) receipt3)))"
    and c: "\<not> path_exists ?w (path (cwd ?w) receipt3)"
    by code_simp+
  have n: "example_net (url receipt3) = Raises (HTTPError ''<HTTPError 404: Not Found>'')"
    by code_simp
  have w: "?w\<lparr>requests := requests ?w @ [url receipt3]\<rparr> = world3"
    by (simp add: world2_def world3_def)
  have "download_receipt example_net ?w receipt3 =
      (Inr (Error receipt3 ''<HTTPError 404: Not Found>''), world3)"
    unfolding download_receipt_fetch [OF makedirs_existing [OF a b] c]
      urlretrieve_raises [of example_net "url receipt3", OF n] w
    by simp
  moreover have "consume progress2 (Error receipt3 ''<HTTPError 404: Not Found>'') = Inr progress3"
    by code_simp
  ultimately show ?thesis
    by (rule imap_loop_Cons_result)
qed


lemma example_stream: "Receipts_all ''out'' example_listing = [receipt1, receipt2, receipt3]"
  by code_simp

lemma example_target: "path_exists example_world ''out''" "path_isdir example_world ''out''"
  by code_simp+

lemma run_loop_continue:
  assumes "cur_batch limit rs p = Inr (cur, rest)" and "imap_loop net w cur p = (Inr p', w')"
    and "\<not> exit_condition limit p'"
  shows "run_loop net limit w rs p = run_loop net limit w' rest p'"
  using assms by (subst run_loop.simps) simp

lemma run_loop_exit:
  assumes "cur_batch limit rs p = Inr (cur, rest)" and "imap_loop net w cur p = (Inr p', w')"
    and "exit_condition limit p'"
  shows "run_loop net limit w rs p = Some (Inr p', w')"
  using assms by (subst run_loop.simps) simp

lemma example_run:
  "run net example_world example_listing ''out'' limit =
     run_loop net limit example_world [receipt1, receipt2, receipt3] progress0"
  by (simp add: run_def example_target example_stream)

lemma example_imap_first:
  "imap_loop example_net example_world [receipt1] progress0 = (Inr progress1, world1)"
  by (simp only: example_step1 imap_loop.simps(1))

lemma example_imap_second:
  "imap_loop example_net world1 [receipt2] progress1 = (Inr progress2, world2)"
  by (simp only: example_step2 imap_loop.simps(1))

lemma example_imap_third:
  "imap_loop example_net world2 [receipt3] progress2 = (Inr progress3, world3)"
  by (simp only: example_step3 imap_loop.simps(1))

lemma example_imap_two:
  "imap_loop example_net example_world [receipt1, receipt2] progress0 = (Inr progress2, world2)"
  by (simp only: example_step1 example_step2 imap_loop.simps(1))

lemma example_imap_all:
  "imap_loop example_net example_world [receipt1, receipt2, receipt3] progress0 =
     (Inr progress3, world3)"
  by (simp only: example_step1 example_step2 example_step3 imap_loop.simps(1))

lemma example_run_unlimited:
  "run example_net example_world example_listing ''out'' None = Some (Inr progress3, world3)"
proof -
  have "run_loop example_net None example_world [receipt1, receipt2, receipt3] progress0 =
      Some (imap_loop example_net example_world [receipt1, receipt2, receipt3] progress0)"
    by (rule run_loop_unlimited) simp
  then show ?thesis
    unfolding example_run example_imap_all .
qed

lemma example_run_limit_one:
  "run example_net example_world example_listing ''out'' (Some 1) = Some (Inr progress2, world2)"
proof -
  have b1: "cur_batch (Some 1) [receipt1, receipt2, receipt3] progress0 =
      Inr ([receipt1], [receipt2, receipt3])"
    by (simp add: cur_batch_def islice_def maxsize_def progress0_def)
  have e1: "\<not> exit_condition (Some 1) progress1"
    by (simp add: exit_condition_def progress1_def)
  have b2: "cur_batch (Some 1) [receipt2, receipt3] progress1 = Inr ([receipt2], [receipt3])"
    by (simp add: cur_batch_def islice_def maxsize_def progress1_def)
  have e2: "exit_condition (Some 1) progress2"
    by (simp add: exit_condition_def progress2_def)
  show ?thesis
    unfolding example_run run_loop_continue [OF b1 example_imap_first e1]
    by (rule run_loop_exit [OF b2 example_imap_second e2])
qed

subsection \<open>The claims\<close>

text \<open>
  C3. For every row read from the datasets, \<^verbatim>\<open>Receipts.all\<close> yields a descriptor for it
  if and only if its document identifier is neither null nor empty: the stream is, in
  order, one descriptor for each row of the matching dataset files that
  \<open>has_document_id\<close>, and nothing else. The program tests for null only; an empty cell is
  never yielded because the reader has already turned it into the null value.
\<close>

theorem Receipts_all_filter:
  "Receipts_all tgt listing =
     map (\<lambda>c. Receipt_init (read_row c) tgt)
       (filter has_document_id (concat (map snd (datasets listing))))"
  by (simp add: Receipts_all_def all_from_filter)

theorem Receipts_all_filter_witness:
  "Receipts_all ''out''
     [(''2016-08-08-last-year.xz'',
       [\<lparr>csv_applicant_id = PyInt 13, csv_year = PyInt 2015, csv_document_id = ''42''\<rparr>,
        \<lparr>csv_applicant_id = PyInt 13, csv_year = PyInt 2015, csv_document_id = []\<rparr>,
        \<lparr>csv_applicant_id = PyInt 14, csv_year = PyInt 2015, csv_document_id = ''NaN''\<rparr>])] =
   [\<lparr>applicant_id = PyInt 13, year = PyInt 2015, document_id = PyStr ''42'', target = ''out''\<rparr>]"
  unfolding Receipts_all_filter [of "''out''"] by code_simp

text \<open>
  C4. For every descriptor, the remote URL is exactly
  \<^verbatim>\<open>http://www.camara.gov.br/cota-parlamentar/documentos/publ/{applicantId}/{year}/{documentId}.pdf\<close>
  with the string forms of the three fields filled in; the target directory, the only other
  field of a descriptor, does not occur in it, so the URL is a function of the three
  fields alone.
\<close>

theorem url_format:
  "url \<lparr>applicant_id = a, year = y, document_id = d, target = t\<rparr> =
     ''http://www.camara.gov.br/cota-parlamentar/documentos/publ/''
       @ py_str a @ ''/'' @ py_str y @ ''/'' @ py_str d @ ''.pdf''"
  by (simp add: url_def base_def)

theorem url_format_witness:
  "url \<lparr>applicant_id = PyInt 1789, year = PyInt 2015, document_id = PyStr ''5635048'',
        target = ''/tmp/receipts''\<rparr> =
     ''http://www.camara.gov.br/cota-parlamentar/documentos/publ/1789/2015/5635048.pdf''"
  unfolding url_format by code_simp

text \<open>
  C9. Consuming an \<open>Ok\<close> outcome whose content length parses as the integer \<open>n\<close>
  increments \<open>count\<close> by exactly one and adds \<open>n\<close> to \<open>size_bytes\<close>, leaving
  \<open>skipped\<close> and \<open>errors\<close> as they were. A missing content length
  (\<^verbatim>\<open>TypeError\<close>) and an unparsable one (\<^verbatim>\<open>ValueError\<close>) are fatal: the exception
  leaves the loop and no progress is returned.
\<close>

theorem consume_ok:
  "consume p (Ok r header) =
     (case getitem header ''Content-Length'' of
        None \<Rightarrow> Inl (TypeError ''int() argument must be a string or a number, not NoneType'')
      | Some s \<Rightarrow>
          (case parse_int s of
             None \<Rightarrow> Inl (ValueError s)
           | Some n \<Rightarrow>
               Inr \<lparr>count = count p + 1, size_bytes = size_bytes p + n,
                    errors = errors p, skipped = skipped p\<rparr>))"
  by (simp add: py_int_def split: option.splits)

theorem consume_ok_witness:
  "consume \<lparr>count = 2, size_bytes = 100, errors = [''e''], skipped = [''s'']\<rparr>
     (Ok \<lparr>applicant_id = PyInt 1789, year = PyInt 2015, document_id = PyStr ''5635048'',
          target = ''/tmp/receipts''\<rparr>
        [(''Content-Type'', ''application/pdf''), (''Content-Length'', ''1024'')]) =
   Inr \<lparr>count = 3, size_bytes = 1124, errors = [''e''], skipped = [''s'']\<rparr>"
  unfolding consume_ok by code_simp

text \<open>
  C8 (as amended). The local path is \<^verbatim>\<open>os.path.join\<close> of the absolute, normalised form
  of the target with the string forms of the applicant, the year and the document
  identifier followed by \<^verbatim>\<open>.pdf\<close>. When that absolute target \<open>t\<close> is not the root
  and the components are plain, this is the text \<^verbatim>\<open>t/applicantId/year/documentId.pdf\<close>.
\<close>

theorem path_format:
  assumes "abspath wd (target r) = t" and "t \<noteq> []" and "last t \<noteq> CHR ''/''"
    and "plain_component (py_str (applicant_id r))"
    and "plain_component (py_str (year r))"
    and "\<not> startswith_sep (py_str (document_id r))"
  shows "path wd r =
           t @ ''/'' @ py_str (applicant_id r) @ ''/'' @ py_str (year r) @ ''/''
             @ py_str (document_id r) @ ''.pdf''"
proof -
  let ?a = "py_str (applicant_id r)" and ?y = "py_str (year r)" and ?d = "py_str (document_id r)"
  have 1: "join_step t ?a = t @ ''/'' @ ?a"
    using assms by (simp add: join_step_plain plain_not_startswith)
  have 2: "join_step (t @ ''/'' @ ?a) ?y = t @ ''/'' @ ?a @ ''/'' @ ?y"
    using assms(4,5) by (simp add: join_step_plain plain_not_startswith plain_component_def)
  have "\<not> startswith_sep (?d @ ''.pdf'')"
    using assms(6) by (cases ?d) (simp_all add: startswith_sep_def)
  then have 3: "join_step (t @ ''/'' @ ?a @ ''/'' @ ?y) (?d @ ''.pdf'') =
      t @ ''/'' @ ?a @ ''/'' @ ?y @ ''/'' @ ?d @ ''.pdf''"
    using assms(5) join_step_plain [of "t @ ''/'' @ ?a @ ''/'' @ ?y" "?d @ ''.pdf''"]
    by (simp add: plain_component_def)
  show ?thesis
    unfolding path_def join_def assms(1) foldl.simps 1 2 3 ..
qed

theorem path_format_witness:
  "path ''/home/user''
     \<lparr>applicant_id = PyInt 1789, year = PyInt 2015, document_id = PyStr ''5635048'',
      target = ''receipts''\<rparr> = ''/home/user/receipts/1789/2015/5635048.pdf''"
proof -
  let ?r = "\<lparr>applicant_id = PyInt 1789, year = PyInt 2015, document_id = PyStr ''5635048'',
      target = ''receipts''\<rparr>"
  have h1: "abspath ''/home/user'' (target ?r) = ''/home/user/receipts''"
    by code_simp
  have h2: "''/home/user/receipts'' \<noteq> []" and h3: "last ''/home/user/receipts'' \<noteq> CHR ''/''"
    by simp_all
  have h4: "plain_component (py_str (applicant_id ?r))"
    and h5: "plain_component (py_str (year ?r))"
    and h6: "\<not> startswith_sep (py_str (document_id ?r))"
    by code_simp+
  have rhs: "''/home/user/receipts'' @ ''/'' @ py_str (applicant_id ?r) @ ''/'' @ py_str (year ?r)
      @ ''/'' @ py_str (document_id ?r) @ ''.pdf'' = ''/home/user/receipts/1789/2015/5635048.pdf''"
    by code_simp
  show ?thesis
    by (rule trans [OF path_format [OF h1 h2 h3 h4 h5 h6] rhs])
qed

text \<open>
  C8 as stated fails: with the relative target \<^verbatim>\<open>receipts\<close> the path is not
  \<^verbatim>\<open>receipts/1789/2015/5635048.pdf\<close> but the absolute path under the working
  directory, as the docstring of \<^verbatim>\<open>Receipt.path\<close> announces.
\<close>

theorem path_relative_counterexample:
  "path ''/home/user''
     \<lparr>applicant_id = PyInt 1789, year = PyInt 2015, document_id = PyStr ''5635048'',
      target = ''receipts''\<rparr>
   \<noteq> ''receipts'' @ ''/'' @ py_str (PyInt 1789) @ ''/'' @ py_str (PyInt 2015) @ ''/''
       @ py_str (PyStr ''5635048'') @ ''.pdf''"
  by code_simp

text \<open>
  C6. If the target does not exist, or exists but is not a directory, \<^verbatim>\<open>run\<close> raises
  \<^verbatim>\<open>RuntimeError\<close> at once: the result is the error, whatever the datasets, the network
  and the limit are, and the world is returned as it was (nothing dispatched, nothing
  requested, nothing written). No progress is returned.
\<close>

theorem run_bad_target:
  assumes "\<not> path_exists w tgt \<or> (path_exists w tgt \<and> \<not> path_isdir w tgt)"
  shows "run net w listing tgt limit =
     Some (Inl (RuntimeError
        (if \<not> path_exists w tgt then ''Directory '' @ tgt @ '' does not exist''
         else tgt @ '' is a file, not a directory'')), w)"
  using assms by (auto simp add: run_def)

theorem run_bad_target_witness:
  "run offline_net example_world example_listing ''receipts'' (Some 3) =
     Some (Inl (RuntimeError ''Directory receipts does not exist''), example_world) \<and>
   run offline_net example_world example_listing [] None =
     Some (Inl (RuntimeError ''Directory  does not exist''), example_world) \<and>
   run offline_net example_world example_listing ''missing/..'' None =
     Some (Inl (RuntimeError ''Directory missing/.. does not exist''), example_world) \<and>
   run offline_net example_world example_listing ''notes.txt/..'' None =
     Some (Inl (RuntimeError ''Directory notes.txt/.. does not exist''), example_world) \<and>
   run offline_net example_world example_listing ''notes.txt/'' None =
     Some (Inl (RuntimeError ''Directory notes.txt/ does not exist''), example_world) \<and>
   run offline_net example_world example_listing ''notes.txt'' None =
     Some (Inl (RuntimeError ''notes.txt is a file, not a directory''), example_world) \<and>
   run offline_net example_world example_listing ''out/1789/2015/5635048.pdf'' (Some 0) =
     Some (Inl (RuntimeError ''out/1789/2015/5635048.pdf is a file, not a directory''),
       example_world)"
proof -
  have a: "\<not> path_exists example_world ''receipts''"
    "\<not> path_exists example_world []"
    "\<not> path_exists example_world ''missing/..''"
    "\<not> path_exists example_world ''notes.txt/..''"
    "\<not> path_exists example_world ''notes.txt/''"
    by code_simp+
  have b: "path_exists example_world ''notes.txt''"
    "\<not> path_isdir example_world ''notes.txt''"
    "path_exists example_world ''out/1789/2015/5635048.pdf''"
    "\<not> path_isdir example_world ''out/1789/2015/5635048.pdf''"
    by code_simp+
  show ?thesis
    using run_bad_target [of example_world "''receipts''" offline_net example_listing "Some 3"]
      run_bad_target [of example_world "[]" offline_net example_listing None]
      run_bad_target [of example_world "''missing/..''" offline_net example_listing None]
      run_bad_target [of example_world "''notes.txt/..''" offline_net example_listing None]
      run_bad_target [of example_world "''notes.txt/''" offline_net example_listing None]
      run_bad_target [of example_world "''notes.txt''" offline_net example_listing None]
      run_bad_target [of example_world "''out/1789/2015/5635048.pdf''" offline_net
        example_listing "Some 0"]
      a b
    by simp
qed

text \<open>
  C7. A descriptor whose local path is a regular file is skipped: the worker returns
  \<open>Skipped\<close> with the descriptor and leaves the world as it was, so nothing is
  requested from the network and nothing is written; consuming that outcome appends the
  URL of the descriptor, not its local path, to \<open>skipped\<close>. The working directory
  is an absolute path, as \<^verbatim>\<open>os.getcwd\<close> returns it.
\<close>

theorem download_receipt_skipped:
  assumes "startswith_sep (cwd w)" and "path_isfile w (path (cwd w) r)"
  shows "download_receipt net w r = (Inr (Skipped r (url r)), w) \<and>
         consume p (Skipped r (url r)) = Inr (p\<lparr>skipped := skipped p @ [url r]\<rparr>)"
proof -
  from assms(1) have "startswith_sep (path (cwd w) r)"
    by (rule startswith_sep_path)
  from makedirs_of_file [OF this assms(2)] path_isfile_exists [OF assms(2)] show ?thesis
    by (simp add: download_receipt_def)
qed

theorem download_receipt_skipped_witness:
  "download_receipt offline_net example_world receipt1 =
     (Inr (Skipped receipt1
        ''http://www.camara.gov.br/cota-parlamentar/documentos/publ/1789/2015/5635048.pdf''),
      example_world) \<and>
   consume progress0
     (Skipped receipt1
        ''http://www.camara.gov.br/cota-parlamentar/documentos/publ/1789/2015/5635048.pdf'') =
     Inr \<lparr>count = 0, size_bytes = 0, errors = [],
          skipped = [''http://www.camara.gov.br/cota-parlamentar/documentos/publ/1789/2015/5635048.pdf'']\<rparr>"
proof -
  have a: "startswith_sep (cwd example_world)"
    and b: "path_isfile example_world (path (cwd example_world) receipt1)"
    by code_simp+
  have u: "url receipt1 =
      ''http://www.camara.gov.br/cota-parlamentar/documentos/publ/1789/2015/5635048.pdf''"
    by code_simp
  show ?thesis
    using download_receipt_skipped [OF a b, of offline_net progress0]
    by (simp add: u progress0_def)
qed

text \<open>
  C5. The sum of \<open>count\<close> and of the lengths of \<open>skipped\<close> and \<open>errors\<close>
  is the number of outcomes consumed. It is zero at the start. Consuming one outcome
  changes exactly one of the three, by one. When the loop over a batch has consumed the
  outcomes of the descriptors \<open>rs\<close> the sum has grown by the length of \<open>rs\<close>, and
  these are the descriptors that were handed to the pool. When \<^verbatim>\<open>run\<close> returns,
  the sum is the number of descriptors dispatched during the run.
\<close>

theorem accounting:
  "outcomes_counted progress0 = 0 \<and>
   (consume p res = Inr p1 \<longrightarrow>
      outcomes_counted p1 = outcomes_counted p + 1 \<and>
      (count p1 = count p + 1 \<and> skipped p1 = skipped p \<and> errors p1 = errors p \<or>
       count p1 = count p \<and> (\<exists>u. skipped p1 = skipped p @ [u]) \<and> errors p1 = errors p \<or>
       count p1 = count p \<and> skipped p1 = skipped p \<and> (\<exists>u. errors p1 = errors p @ [u]))) \<and>
   (imap_loop net w rs p = (Inr p2, w2) \<longrightarrow>
      outcomes_counted p2 = outcomes_counted p + int (length rs) \<and>
      dispatched w2 = dispatched w @ rs) \<and>
   (run net w0 listing tgt limit = Some (Inr q, w') \<longrightarrow>
      outcomes_counted q = int (length (dispatched w')) - int (length (dispatched w0)))"
proof (intro conjI impI)
  show z: "outcomes_counted progress0 = 0"
    by (simp add: outcomes_counted_def progress0_def)
  {
    assume c: "consume p res = Inr p1"
    then show "outcomes_counted p1 = outcomes_counted p + 1"
      by (rule consume_counted)
    from c show "count p1 = count p + 1 \<and> skipped p1 = skipped p \<and> errors p1 = errors p \<or>
       count p1 = count p \<and> (\<exists>u. skipped p1 = skipped p @ [u]) \<and> errors p1 = errors p \<or>
       count p1 = count p \<and> skipped p1 = skipped p \<and> (\<exists>u. errors p1 = errors p @ [u])"
      by (cases res) (auto simp add: Let_def split: sum.splits)
  }
  {
    assume i: "imap_loop net w rs p = (Inr p2, w2)"
    from imap_loop_facts [OF i]
    show "outcomes_counted p2 = outcomes_counted p + int (length rs)"
      and "dispatched w2 = dispatched w @ rs"
      by simp_all
  }
  {
    assume r: "run net w0 listing tgt limit = Some (Inr q, w')"
    then have "run_loop net limit w0 (Receipts_all tgt listing) progress0 = Some (Inr q, w')"
      by (simp add: run_def split: if_splits)
    from run_loop_counted [OF this] z
    show "outcomes_counted q = int (length (dispatched w')) - int (length (dispatched w0))"
      by simp
  }
qed

theorem accounting_witness:
  "consume progress0 (Skipped receipt1 (url receipt1)) = Inr progress1 \<and>
   outcomes_counted progress1 = 1 \<and>
   imap_loop example_net example_world [receipt1, receipt2, receipt3] progress0 =
     (Inr progress3, world3) \<and>
   outcomes_counted progress3 = 3 \<and>
   dispatched world3 = [receipt1, receipt2, receipt3] \<and>
   run example_net example_world example_listing ''out'' None = Some (Inr progress3, world3) \<and>
   outcomes_counted progress3 =
     int (length (dispatched world3)) - int (length (dispatched example_world))"
proof -
  have c: "consume progress0 (Skipped receipt1 (url receipt1)) = Inr progress1"
    by (simp add: progress0_def progress1_def)
  have d: "dispatched example_world = []"
    by (simp add: example_world_def)
  show ?thesis
    using accounting [where p = progress0 and res = "Skipped receipt1 (url receipt1)"
        and ?p1.0 = progress1 and net = example_net and w = example_world
        and rs = "[receipt1, receipt2, receipt3]" and ?p2.0 = progress3 and ?w2.0 = world3
        and ?w0.0 = example_world and listing = example_listing and tgt = "''out''"
        and limit = None and q = progress3 and w' = world3]
      c d example_imap_all example_run_unlimited
    by simp
qed

text \<open>
  C10. With a limit \<open>l > 0\<close> the number of successes never exceeds \<open>l\<close>. A batch
  is the slice of at most \<open>l - count\<close> descriptors, so after any number \<open>k\<close> of
  outcomes of a batch that started with \<open>count \<le> l\<close> the count is still at most
  \<open>l\<close>; and when \<^verbatim>\<open>run\<close> returns, the count is at most \<open>l\<close>. Skipped and
  failed descriptors are not counted: more than \<open>l\<close> descriptors may be handled.
\<close>

theorem count_within_limit:
  assumes "0 < l"
  shows "(count p \<le> l \<and> cur_batch (Some l) rs p = Inr (cur, rest) \<and>
            imap_loop net w (take k cur) p = (Inr p1, w1) \<longrightarrow> count p1 \<le> l) \<and>
         (run net w0 listing tgt (Some l) = Some (Inr q, w') \<longrightarrow> count q \<le> l)"
proof (intro conjI impI)
  assume a: "count p \<le> l \<and> cur_batch (Some l) rs p = Inr (cur, rest) \<and>
            imap_loop net w (take k cur) p = (Inr p1, w1)"
  with assms have "int (length cur) \<le> l - count p"
    by (auto simp add: cur_batch_def islice_def split: if_splits)
  then have "int (length (take k cur)) \<le> l - count p"
    by simp
  moreover from a have "count p1 \<le> count p + int (length (take k cur))"
    using imap_loop_facts [of net w "take k cur" p p1 w1] by simp
  ultimately show "count p1 \<le> l"
    by simp
next
  assume "run net w0 listing tgt (Some l) = Some (Inr q, w')"
  then have "run_loop net (Some l) w0 (Receipts_all tgt listing) progress0 = Some (Inr q, w')"
    by (simp add: run_def split: if_splits)
  from run_loop_count_le [OF this] assms show "count q \<le> l"
    by (simp add: progress0_def)
qed

theorem count_within_limit_witness:
  "run example_net example_world example_listing ''out'' (Some 1) = Some (Inr progress2, world2) \<and>
   count progress2 \<le> 1 \<and> length (skipped progress2) = 1 \<and>
   imap_loop example_net example_world (take 1 [receipt1]) progress0 = (Inr progress1, world1) \<and>
   count progress1 \<le> 1"
proof -
  have b: "cur_batch (Some 1) [receipt1, receipt2, receipt3] progress0 =
      Inr ([receipt1], [receipt2, receipt3])"
    by (simp add: cur_batch_def islice_def maxsize_def progress0_def)
  have i: "imap_loop example_net example_world (take 1 [receipt1]) progress0 =
      (Inr progress1, world1)"
    using example_imap_first by simp
  have z: "count progress0 \<le> 1"
    by (simp add: progress0_def)
  have s: "length (skipped progress2) = 1"
    by (simp add: progress2_def)
  show ?thesis
    using count_within_limit [where l = 1 and p = progress0
        and rs = "[receipt1, receipt2, receipt3]" and cur = "[receipt1]"
        and rest = "[receipt2, receipt3]" and net = example_net and w = example_world
        and k = 1 and ?p1.0 = progress1 and ?w1.0 = world1 and ?w0.0 = example_world
        and listing = example_listing and tgt = "''out''" and q = progress2 and w' = world2]
      b i z s example_run_limit_one
    by simp
qed

text \<open>
  C2. The run does not always terminate when the stream is exhausted before the limit is
  reached. With the limit 2 and the three example descriptors, of which only one can be
  downloaded, the first batch ends with one success, the second batch handles the last
  descriptor, which fails, and from then on every batch is the empty slice of the
  exhausted generator: the count stays at 1, the exit condition stays false, and
  \<^verbatim>\<open>run\<close> never returns.
\<close>

theorem run_never_returns:
  "run example_net example_world example_listing ''out'' (Some 2) = None"
proof -
  have b1: "cur_batch (Some 2) [receipt1, receipt2, receipt3] progress0 =
      Inr ([receipt1, receipt2], [receipt3])"
    by (simp add: cur_batch_def islice_def maxsize_def progress0_def numeral_2_eq_2)
  have e1: "\<not> exit_condition (Some 2) progress2"
    by (simp add: exit_condition_def progress2_def)
  have b2: "cur_batch (Some 2) [receipt3] progress2 = Inr ([receipt3], [])"
    by (simp add: cur_batch_def islice_def maxsize_def progress2_def)
  have e2: "\<not> exit_condition (Some 2) progress3"
    by (simp add: exit_condition_def progress3_def)
  have "run_loop example_net (Some 2) world3 [] progress3 = None"
    by (rule run_loop_exhausted) (simp_all add: progress3_def maxsize_def)
  then show ?thesis
    unfolding example_run run_loop_continue [OF b1 example_imap_two e1]
      run_loop_continue [OF b2 example_imap_third e2] .
qed




end
